theory Spec2Isabelle
  imports Main
begin

section \<open>Python string primitives\<close>

text \<open>
  A Python \<open>str\<close> is a sequence of code points. The scripts read Rust source text; the model
  takes a string as a \<^typ>\<open>char list\<close> in which every \<^typ>\<open>char\<close> is one code point below 256.
  A file read with \<open>readlines()\<close> is a list of such strings, one per line, each keeping its
  trailing newline.
\<close>

text \<open>\<open>str.isspace\<close> on code points below 256: tab to carriage return, the four separators
  0x1C to 0x1F, space, NEL and the no-break space.\<close>

definition is_space :: "char \<Rightarrow> bool" where
  "is_space c =
     (let n = (of_char c :: nat)
      in (9 \<le> n \<and> n \<le> 13) \<or> (28 \<le> n \<and> n \<le> 32) \<or> n = 133 \<or> n = 160)"

text \<open>\<open>s.lstrip()\<close>, \<open>s.rstrip()\<close> and \<open>s.strip()\<close> without argument.\<close>

definition lstrip :: "string \<Rightarrow> string" where
  "lstrip s = dropWhile is_space s"

definition rstrip :: "string \<Rightarrow> string" where
  "rstrip s = rev (dropWhile is_space (rev s))"

definition strip :: "string \<Rightarrow> string" where
  "strip s = rstrip (lstrip s)"

text \<open>\<open>s.startswith(p)\<close>, \<open>s.endswith(p)\<close>, \<open>p in s\<close> and \<open>s.count(c)\<close> for a one-character
  \<open>c\<close>.\<close>

fun startswith :: "string \<Rightarrow> string \<Rightarrow> bool" where
  "startswith s [] = True"
| "startswith [] (p # ps) = False"
| "startswith (c # cs) (p # ps) = (c = p \<and> startswith cs ps)"

definition endswith :: "string \<Rightarrow> string \<Rightarrow> bool" where
  "endswith s p = startswith (rev s) (rev p)"

fun contains :: "string \<Rightarrow> string \<Rightarrow> bool" where
  "contains p [] = (p = [])"
| "contains p (c # cs) = (startswith (c # cs) p \<or> contains p cs)"

definition count_char :: "char \<Rightarrow> string \<Rightarrow> nat" where
  "count_char c s = length (filter (\<lambda>x. x = c) s)"

section \<open>\<open>refactor_client_complete.py\<close>: the line-oriented rewriter\<close>

subsection \<open>The inner scans\<close>

text \<open>Each inner \<open>while\<close> loop of \<open>refactor\<close> moves the shared index \<open>i\<close> forward over
  \<open>lines\<close>; the model returns the index at which the loop exits.\<close>

text \<open>Macro definition: scan to a line that is \<open>}\<close> and is followed by another \<open>}\<close> line.\<close>

function skip_macro :: "string list \<Rightarrow> nat \<Rightarrow> nat" where
  "skip_macro lines i =
     (if i < length lines \<and>
         \<not> (strip (lines ! i) = ''}'' \<and> i + 1 < length lines \<and> strip (lines ! (i + 1)) = ''}'')
      then skip_macro lines (i + 1) else i)"
  by pat_completeness auto
termination
  by (relation "measure (\<lambda>(lines, i). length lines - i)") auto

declare skip_macro.simps [simp del]

text \<open>\<open>with_interceptor\<close> method: scan to a \<open>}\<close> line that is last or not followed by a
  comment line.\<close>

function skip_method :: "string list \<Rightarrow> nat \<Rightarrow> nat" where
  "skip_method lines i =
     (if i < length lines \<and>
         \<not> (strip (lines ! i) = ''}'' \<and>
            (i + 1 \<ge> length lines \<or> \<not> startswith (strip (lines ! (i + 1))) ''//''))
      then skip_method lines (i + 1) else i)"
  by pat_completeness auto
termination
  by (relation "measure (\<lambda>(lines, i). length lines - i)") auto

declare skip_method.simps [simp del]

text \<open>\<open>interceptors()\<close> accessor: scan to the first \<open>}\<close> line.\<close>

function skip_to_brace :: "string list \<Rightarrow> nat \<Rightarrow> nat" where
  "skip_to_brace lines i =
     (if i < length lines \<and> strip (lines ! i) \<noteq> ''}''
      then skip_to_brace lines (i + 1) else i)"
  by pat_completeness auto
termination
  by (relation "measure (\<lambda>(lines, i). length lines - i)") auto

declare skip_to_brace.simps [simp del]

text \<open>Helper block: the brace counter. One line's update adds its number of \<open>{\<close> and
  subtracts its number of \<open>}\<close>.\<close>

definition count_braces :: "int \<Rightarrow> string \<Rightarrow> int" where
  "count_braces brace_count line =
     (let b1 = (if contains ''{'' line
                then brace_count + int (count_char CHR ''{'' line) else brace_count)
      in if contains ''}'' line then b1 - int (count_char CHR ''}'' line) else b1)"

text \<open>The loop updates the counter, steps over the line, and breaks when the counter is zero
  and the line just passed is a lone \<open>}\<close>.\<close>

function skip_block :: "string list \<Rightarrow> nat \<Rightarrow> int \<Rightarrow> nat" where
  "skip_block lines i brace_count =
     (if i < length lines then
        (let b = count_braces brace_count (lines ! i)
         in if b = 0 \<and> strip (lines ! i) = ''}'' then i + 1
            else skip_block lines (i + 1) b)
      else i)"
  by pat_completeness auto
termination
  by (relation "measure (\<lambda>(lines, i, b). length lines - i)") auto

declare skip_block.simps [simp del]

text \<open>Multi-line call: scan to the first line containing the terminator and step over it.\<close>

function skip_until :: "string \<Rightarrow> string list \<Rightarrow> nat \<Rightarrow> nat" where
  "skip_until tok lines i =
     (if i < length lines then
        (if contains tok (lines ! i) then i + 1 else skip_until tok lines (i + 1))
      else i)"
  by pat_completeness auto
termination
  by (relation "measure (\<lambda>(tok, lines, i). length lines - i)") auto

declare skip_until.simps [simp del]

text \<open>\<open>handle_api_error\<close>: collect following lines into \<open>stmt\<close> until it ends with \<open>;\<close>.\<close>

function collect_stmt :: "string list \<Rightarrow> nat \<Rightarrow> string \<Rightarrow> nat" where
  "collect_stmt lines i stmt =
     (if i < length lines \<and> \<not> endswith (rstrip stmt) '';''
      then collect_stmt lines (i + 1)
             (if i + 1 < length lines then stmt @ lines ! (i + 1) else stmt)
      else i)"
  by pat_completeness auto
termination
  by (relation "measure (\<lambda>(lines, i, stmt). length lines - i)") auto

declare collect_stmt.simps [simp del]

subsection \<open>One iteration of the main loop\<close>

text \<open>The branches of the loop body, named in source order. The name is recorded with the
  span a branch consumes; the script itself keeps no such record.\<close>

datatype rule_id =
    InterceptorImport | TooManyArguments | RwLockImport | MacroDefinition | MacroInvocation
  | InterceptorsField | DebugComment | DebugField | InterceptorsInit | WithInterceptor
  | InterceptorsAccessor | HelperBlock | MetadataDecl | BeforeRequest | HandleApiError
  | AfterResponse

text \<open>The replacement line of the \<open>handle_api_error\<close> branch.\<close>

definition map_api_error_line :: "string \<Rightarrow> string" where
  "map_api_error_line line =
     replicate (length line - length (lstrip line)) CHR '' '' @ ''map_api_error(e)\<newline>''"

text \<open>\<open>refactor_step lines i\<close> is the loop body at index \<open>i < len(lines)\<close>: the branch taken
  (\<open>None\<close> for the final keep-everything-else case), the index after the iteration, and the
  lines appended to \<open>output\<close>.\<close>

definition refactor_step :: "string list \<Rightarrow> nat \<Rightarrow> rule_id option \<times> nat \<times> string list" where
  \<open>refactor_step lines i =
     (let line = lines ! i in
      if contains ''use crate::interceptor'' line then (Some InterceptorImport, i + 1, [])
      else if contains ''clippy::too_many_arguments'' line \<or>
              (i > 0 \<and> contains ''Allow this lint'' (lines ! (i - 1)))
           then (Some TooManyArguments, i + 1, [])
      else if contains ''use tokio::sync::RwLock'' line then (Some RwLockImport, i + 1, [])
      else if contains ''// Helper macro to generate'' line
           then (Some MacroDefinition, skip_macro lines i + 2, [])
      else if contains ''impl_interceptor_helpers!'' line then (Some MacroInvocation, i + 1, [])
      else if contains ''    interceptors: Arc<RwLock<InterceptorChain>>,'' line
           then (Some InterceptorsField, i + 1, [])
      else if contains ''since InterceptorChain'' line
           then (Some DebugComment, i + 1, [''// Custom Debug implementation\<newline>''])
      else if contains ''.field("interceptors"'' line then (Some DebugField, i + 1, [])
      else if contains ''            interceptors: Arc::new'' line
           then (Some InterceptorsInit, i + 1, [])
      else if contains ''    /// Add an interceptor'' line
           then (Some WithInterceptor, skip_method lines i + 1, [])
      else if contains ''pub(crate) fn interceptors'' line
           then (let j = skip_to_brace lines i + 1
                 in (Some InterceptorsAccessor,
                     (if j < length lines \<and> strip (lines ! j) = ''}'' then j + 1 else j), []))
      else if contains ''// Interceptor helper methods'' line
           then (Some HelperBlock, skip_block lines (i + 1) 0, [])
      else if contains ''        let mut metadata = HashMap::new();'' line \<or>
              contains ''        let metadata = HashMap::new();'' line
           then (Some MetadataDecl, i + 1, [])
      else if contains ''        self.call_before_request'' line
           then (Some BeforeRequest, skip_until ''.await?'' lines i, [])
      else if contains ''.handle_api_error('' line
           then (Some HandleApiError, collect_stmt lines i line + 1, [map_api_error_line line])
      else if contains ''        self.call_after_response'' line
           then (Some AfterResponse, skip_until ''.await;'' lines i, [])
      else (None, i + 1, [line]))\<close>

text \<open>The three components of an iteration.\<close>

definition rule_of :: "string list \<Rightarrow> nat \<Rightarrow> rule_id option" where
  "rule_of lines i = fst (refactor_step lines i)"

definition next_index :: "string list \<Rightarrow> nat \<Rightarrow> nat" where
  "next_index lines i = fst (snd (refactor_step lines i))"

definition emitted :: "string list \<Rightarrow> nat \<Rightarrow> string list" where
  "emitted lines i = snd (snd (refactor_step lines i))"

subsection \<open>Every scan moves forward\<close>

lemma skip_macro_ge: "i \<le> skip_macro lines i"
proof (induction lines i rule: skip_macro.induct)
  case (1 lines i)
  show ?case
    by (subst skip_macro.simps) (use 1 in \<open>auto\<close>)
qed

lemma skip_method_ge: "i \<le> skip_method lines i"
proof (induction lines i rule: skip_method.induct)
  case (1 lines i)
  show ?case
    by (subst skip_method.simps) (use 1 in \<open>auto\<close>)
qed

lemma skip_to_brace_ge: "i \<le> skip_to_brace lines i"
proof (induction lines i rule: skip_to_brace.induct)
  case (1 lines i)
  show ?case
    by (subst skip_to_brace.simps) (use 1 in \<open>auto\<close>)
qed

lemma skip_block_ge: "i \<le> skip_block lines i b"
proof (induction lines i b rule: skip_block.induct)
  case (1 lines i b)
  show ?case
  proof (cases "i < length lines")
    case True
    show ?thesis
    proof (cases "count_braces b (lines ! i) = 0 \<and> strip (lines ! i) = ''}''")
      case stop: True
      then show ?thesis using True by (subst skip_block.simps) simp
    next
      case False
      from 1 [OF True refl False] have "i \<le> skip_block lines (i + 1) (count_braces b (lines ! i))"
        by simp
      then show ?thesis using True False
        by (subst skip_block.simps) (simp add: Let_def)
    qed
  next
    case False
    then show ?thesis by (subst skip_block.simps) simp
  qed
qed

lemma skip_block_gt: "i < length lines \<Longrightarrow> i < skip_block lines i b"
  using skip_block_ge [of "i + 1" lines "count_braces b (lines ! i)"]
  by (subst skip_block.simps) (auto simp: Let_def)

lemma skip_until_ge: "i \<le> skip_until tok lines i"
proof (induction tok lines i rule: skip_until.induct)
  case (1 tok lines i)
  show ?case
    by (subst skip_until.simps) (use 1 in \<open>auto\<close>)
qed

lemma skip_until_gt: "i < length lines \<Longrightarrow> i < skip_until tok lines i"
  by (subst skip_until.simps) (auto intro: less_le_trans [OF _ skip_until_ge])

lemma collect_stmt_ge: "i \<le> collect_stmt lines i stmt"
proof (induction lines i stmt rule: collect_stmt.induct)
  case (1 lines i stmt)
  show ?case
    by (subst collect_stmt.simps) (use 1 in \<open>auto\<close>)
qed



lemma refactor_step_advances:
  assumes "i < length lines"
  shows "i < fst (snd (refactor_step lines i))"
proof -
  note ge = skip_macro_ge [of i lines] skip_method_ge [of i lines] skip_to_brace_ge [of i lines]
    skip_block_ge [of "i + 1" lines 0] collect_stmt_ge [of i lines "lines ! i"]
    skip_until_gt [OF assms, of "''.await?''"] skip_until_gt [OF assms, of "''.await;''"]
  have branch: "\<And>c a b. i < fst (snd a) \<Longrightarrow> i < fst (snd b) \<Longrightarrow> i < fst (snd (if c then a else b))"
    by simp
  show ?thesis
    unfolding refactor_step_def Let_def by (intro branch) (use ge in simp_all)
qed

subsection \<open>The main loop\<close>

text \<open>Modelled from the spec: the audit trail. The script keeps no record of what it removed;
  the loop below carries, beside \<open>output\<close>, the list \<open>applied\<close> of
  \<open>(rule_id, start_index, end_index)\<close> with one entry per iteration that took a rule branch,
  the span running from the index at the head of the iteration to the last line the iteration
  stepped over (the index can leave the buffer by more than one; the span ends at its last
  line then).\<close>

type_synonym applied = "rule_id \<times> nat \<times> nat"

function refactor_loop ::
  "string list \<Rightarrow> nat \<Rightarrow> string list \<Rightarrow> applied list \<Rightarrow> string list \<times> applied list" where
  "refactor_loop lines i output applied =
     (if i < length lines then
        (case refactor_step lines i of
           (None, i', appended) \<Rightarrow> refactor_loop lines i' (output @ appended) applied
         | (Some r, i', appended) \<Rightarrow>
             refactor_loop lines i' (output @ appended) (applied @ [(r, i, min i' (length lines) - 1)]))
      else (output, applied))"
  by pat_completeness auto
termination
proof (relation "measure (\<lambda>(lines, i, output, applied). length lines - i)", goal_cases)
  case 1
  show ?case by simp
next
  case (2 lines i out applied x1 x2 x3 x4)
  then show ?case using refactor_step_advances [of i lines]
    by (cases "refactor_step lines i") auto
next
  case (3 lines i out applied x1 x2 x3 x4 x5)
  then show ?case using refactor_step_advances [of i lines]
    by (cases "refactor_step lines i") auto
qed

declare refactor_loop.simps [simp del]

text \<open>\<open>refactor\<close> on the lines read from the file: the lines it writes back.\<close>

definition refactor :: "string list \<Rightarrow> string list" where
  "refactor lines = fst (refactor_loop lines 0 [] [])"

definition refactor_applied :: "string list \<Rightarrow> applied list" where
  "refactor_applied lines = snd (refactor_loop lines 0 [] [])"

text \<open>The indices at which the loop body runs, in order, from index \<open>i\<close> on.\<close>

function loop_indices :: "string list \<Rightarrow> nat \<Rightarrow> nat list" where
  "loop_indices lines i =
     (if i < length lines then i # loop_indices lines (next_index lines i) else [])"
  by pat_completeness auto
termination
  by (relation "measure (\<lambda>(lines, i). length lines - i)")
    (use refactor_step_advances in \<open>auto simp: next_index_def intro: diff_less_mono2\<close>)

declare loop_indices.simps [simp del]

text \<open>The audit record of the iteration at index \<open>k\<close>, if it took a rule branch.\<close>

definition span_at :: "string list \<Rightarrow> nat \<Rightarrow> applied list" where
  "span_at lines k =
     (case rule_of lines k of
        None \<Rightarrow> []
      | Some r \<Rightarrow> [(r, k, min (next_index lines k) (length lines) - 1)])"

subsection \<open>Reading and writing the file\<close>

text \<open>\<open>f.readlines()\<close> splits the text after every newline and keeps it; \<open>f.writelines\<close>
  concatenates. The text is what Python's text layer delivers.\<close>

fun readlines :: "string \<Rightarrow> string list" where
  "readlines [] = []"
| "readlines (c # cs) =
     (if c = CHR ''\<newline>'' then [c] # readlines cs
      else (case readlines cs of [] \<Rightarrow> [[c]] | l # ls \<Rightarrow> (c # l) # ls))"

definition writelines :: "string list \<Rightarrow> string" where
  "writelines ls = concat ls"

definition refactor_file :: "string \<Rightarrow> string" where
  "refactor_file content = writelines (refactor (readlines content))"

text \<open>The three scripts do the same I/O and catch no exception: \<open>src/client.rs\<close> is opened
  for reading and read; the text is transformed; the file is opened again with mode \<open>'w'\<close>,
  which truncates it in place; the text is written; a line is printed. The file is its content,
  or \<open>None\<close> when there is no such file. Of the environment the model keeps the one operation,
  if any, that raises in this run: opening or reading the input (a decoding error included),
  opening for writing, the write (after \<open>n\<close> characters of the text reached the file), or the
  \<open>print\<close>.\<close>

datatype failure = IOError

datatype io_fault = NoFault | ReadFails | OpenWriteFails | WriteFails nat | PrintFails

text \<open>\<open>with open('src/client.rs', 'r') as f: content = f.read()\<close>\<close>

definition open_read :: "io_fault \<Rightarrow> string option \<Rightarrow> failure + string" where
  "open_read fault file =
     (case file of
        None \<Rightarrow> Inl IOError
      | Some content \<Rightarrow> if fault = ReadFails then Inl IOError else Inr content)"

text \<open>\<open>open('src/client.rs', 'w')\<close>: the file is empty once it is open.\<close>

definition open_write :: "io_fault \<Rightarrow> string option \<Rightarrow> failure option \<times> string option" where
  "open_write fault file =
     (if fault = OpenWriteFails then (Some IOError, file) else (None, Some []))"

text \<open>\<open>f.write(content)\<close> and closing the file.\<close>

definition write_text :: "io_fault \<Rightarrow> string \<Rightarrow> string option \<Rightarrow> failure option \<times> string option" where
  "write_text fault content file =
     (case fault of
        WriteFails n \<Rightarrow> (Some IOError, map_option (\<lambda>old. old @ take n content) file)
      | _ \<Rightarrow> (None, map_option (\<lambda>old. old @ content) file))"

definition print_line :: "io_fault \<Rightarrow> failure option" where
  "print_line fault = (if fault = PrintFails then Some IOError else None)"

text \<open>A script with transformation \<open>patch\<close>: the exception that ends the run, if any, and the
  file after the run.\<close>

definition run_script ::
  "(string \<Rightarrow> string) \<Rightarrow> io_fault \<Rightarrow> string option \<Rightarrow> failure option \<times> string option" where
  "run_script patch fault file =
     (case open_read fault file of
        Inl e \<Rightarrow> (Some e, file)
      | Inr content \<Rightarrow>
          (case open_write fault file of
             (Some e, file1) \<Rightarrow> (Some e, file1)
           | (None, file1) \<Rightarrow>
               (case write_text fault (patch content) file1 of
                  (Some e, file2) \<Rightarrow> (Some e, file2)
                | (None, file2) \<Rightarrow> (print_line fault, file2))))"

definition refactor_main :: "io_fault \<Rightarrow> string option \<Rightarrow> failure option \<times> string option" where
  "refactor_main = run_script refactor_file"

subsection \<open>The step, rule by rule\<close>

text \<open>What each branch appends to \<open>output\<close> and where it leaves the index, as functions of
  the branch taken.\<close>

fun replacement :: "rule_id option \<Rightarrow> string \<Rightarrow> string list" where
  "replacement None line = [line]"
| "replacement (Some DebugComment) line = [''// Custom Debug implementation\<newline>'']"
| "replacement (Some HandleApiError) line = [map_api_error_line line]"
| "replacement (Some r) line = []"

fun rule_next :: "rule_id option \<Rightarrow> string list \<Rightarrow> nat \<Rightarrow> nat" where
  "rule_next (Some MacroDefinition) lines i = skip_macro lines i + 2"
| "rule_next (Some WithInterceptor) lines i = skip_method lines i + 1"
| "rule_next (Some InterceptorsAccessor) lines i =
     (let j = skip_to_brace lines i + 1
      in if j < length lines \<and> strip (lines ! j) = ''}'' then j + 1 else j)"
| "rule_next (Some HelperBlock) lines i = skip_block lines (i + 1) 0"
| "rule_next (Some BeforeRequest) lines i = skip_until ''.await?'' lines i"
| "rule_next (Some HandleApiError) lines i = collect_stmt lines i (lines ! i) + 1"
| "rule_next (Some AfterResponse) lines i = skip_until ''.await;'' lines i"
| "rule_next r lines i = i + 1"

subsection \<open>Brace depth\<close>

text \<open>The net brace count of a line, and the depth after line \<open>j\<close> of a scan that starts at
  line \<open>s\<close> with depth zero. \<open>block_end\<close> is the exit test of the helper-block scan.\<close>

definition brace_delta :: "string \<Rightarrow> int" where
  "brace_delta line = int (count_char CHR ''{'' line) - int (count_char CHR ''}'' line)"

definition depth_after :: "string list \<Rightarrow> nat \<Rightarrow> nat \<Rightarrow> int" where
  "depth_after lines s j = sum_list (map brace_delta (take (j + 1 - s) (drop s lines)))"

definition block_end :: "string list \<Rightarrow> nat \<Rightarrow> nat \<Rightarrow> bool" where
  "block_end lines s j = (depth_after lines s j = 0 \<and> strip (lines ! j) = ''}'')"


subsection \<open>Terminators\<close>

text \<open>The exit test of the scan of each branch, for the branch taken at line \<open>i\<close> and a scanned
  line \<open>j\<close>: the condition under which the inner \<open>while\<close> loop stops at \<open>j\<close> before the end of
  the buffer. A branch without scan ends on its own line.\<close>

fun terminates_at :: "rule_id \<Rightarrow> string list \<Rightarrow> nat \<Rightarrow> nat \<Rightarrow> bool" where
  "terminates_at MacroDefinition lines i j =
     (strip (lines ! j) = ''}'' \<and> j + 1 < length lines \<and> strip (lines ! (j + 1)) = ''}'')"
| "terminates_at WithInterceptor lines i j =
     (strip (lines ! j) = ''}'' \<and>
      (j + 1 \<ge> length lines \<or> \<not> startswith (strip (lines ! (j + 1))) ''//''))"
| "terminates_at InterceptorsAccessor lines i j = (strip (lines ! j) = ''}'')"
| "terminates_at HelperBlock lines i j = (i < j \<and> block_end lines (i + 1) j)"
| "terminates_at BeforeRequest lines i j = contains ''.await?'' (lines ! j)"
| "terminates_at HandleApiError lines i j =
     endswith (rstrip (concat (take (j + 1 - i) (drop i lines)))) '';''"
| "terminates_at AfterResponse lines i j = contains ''.await;'' (lines ! j)"
| "terminates_at r lines i j = True"

text \<open>A construct whose terminates_at is missing from the rest of the buffer.\<close>

definition unterminated :: "string list \<Rightarrow> nat \<Rightarrow> bool" where
  "unterminated lines i =
     (case rule_of lines i of
        None \<Rightarrow> False
      | Some r \<Rightarrow> list_all (\<lambda>j. \<not> terminates_at r lines i j) [i..<length lines])"

text \<open>What the loop has appended to \<open>output\<close> when it reaches index \<open>i\<close>.\<close>

definition emitted_before :: "string list \<Rightarrow> nat \<Rightarrow> string list" where
  "emitted_before lines i =
     concat (map (emitted lines) (takeWhile (\<lambda>k. k < i) (loop_indices lines 0)))"

subsection \<open>Spans and kept lines\<close>

text \<open>Modelled from the spec: the applied spans that contain line \<open>k\<close>, the lines copied by the
  final branch of the loop, the number of lines inside applied spans, and the number of lines the
  rules appended in their place.\<close>

definition covering :: "string list \<Rightarrow> nat \<Rightarrow> applied list" where
  "covering lines k = filter (\<lambda>(r, s, e). s \<le> k \<and> k \<le> e) (refactor_applied lines)"

definition kept :: "string list \<Rightarrow> nat list" where
  "kept lines = filter (\<lambda>k. rule_of lines k = None) (loop_indices lines 0)"

definition deleted :: "string list \<Rightarrow> nat" where
  "deleted lines = sum_list (map (\<lambda>(r, s, e). e + 1 - s) (refactor_applied lines))"

definition inserted :: "string list \<Rightarrow> nat" where
  "inserted lines = sum_list (map (\<lambda>(r, s, e). length (emitted lines s)) (refactor_applied lines))"

section \<open>\<open>fix_client.py\<close>: the regular-expression rewriter\<close>

text \<open>The word characters of \<open>\\w\<close> and \<open>\\b\<close> on code points below 256: \<open>str.isalnum\<close> or the
  underscore. \<open>\\s\<close> is \<^const>\<open>is_space\<close>.\<close>

definition is_word :: "char \<Rightarrow> bool" where
  "is_word c =
     (let n = (of_char c :: nat)
      in (48 \<le> n \<and> n \<le> 57) \<or> (65 \<le> n \<and> n \<le> 90) \<or> n = 95 \<or> (97 \<le> n \<and> n \<le> 122) \<or>
         n = 170 \<or> n = 178 \<or> n = 179 \<or> n = 181 \<or> n = 185 \<or> n = 186 \<or>
         (188 \<le> n \<and> n \<le> 190) \<or> (192 \<le> n \<and> n \<le> 214) \<or> (216 \<le> n \<and> n \<le> 246) \<or>
         (248 \<le> n \<and> n \<le> 255))"

subsection \<open>\<open>re.sub\<close>\<close>

text \<open>\<open>re.sub\<close> scans the text from left to right. At each position it tries the pattern; a
  match is replaced and the scan resumes behind it, otherwise the character is kept. The scan
  is recorded as a list of pieces: a kept character, or a matched text with its replacement.
  A pattern is given by its matcher, which sees the character before the position (for \<open>\\b\<close>)
  and the text from the position on, and returns the length of the match and the replacement.
  None of the four patterns of \<open>fix_client\<close> matches the empty string; the test on \<open>n\<close> keeps
  the scan total.\<close>

datatype piece = Kept char | Matched string string

fun piece_in :: "piece \<Rightarrow> string" where
  "piece_in (Kept c) = [c]"
| "piece_in (Matched t r) = t"

fun piece_out :: "piece \<Rightarrow> string" where
  "piece_out (Kept c) = [c]"
| "piece_out (Matched t r) = r"

type_synonym matcher = "char option \<Rightarrow> string \<Rightarrow> (nat \<times> string) option"

function re_scan :: "matcher \<Rightarrow> char option \<Rightarrow> string \<Rightarrow> piece list" where
  "re_scan m prev [] = []"
| "re_scan m prev (c # cs) =
     (case m prev (c # cs) of
        None \<Rightarrow> Kept c # re_scan m (Some c) cs
      | Some (n, r) \<Rightarrow>
          if 0 < n \<and> n \<le> length (c # cs)
          then Matched (take n (c # cs)) r # re_scan m (Some ((c # cs) ! (n - 1))) (drop n (c # cs))
          else Kept c # re_scan m (Some c) cs)"
  by pat_completeness auto
termination
  by (relation "measure (\<lambda>(m, prev, s). length s)") auto

definition re_sub :: "matcher \<Rightarrow> string \<Rightarrow> string" where
  "re_sub m s = concat (map piece_out (re_scan m None s))"

subsection \<open>The four patterns\<close>

text \<open>\<open>        self\\.call_before_request\\([^)]+\\)\\s*\\.await\\?;\\n\<close> and its
  \<open>call_after_response\<close> twin: the name with its open parenthesis, one or more characters
  other than \<open>)\<close>, the \<open>)\<close>, whitespace, the terminator. Every repetition is followed by a
  character it cannot match, so the greedy match is the only one.\<close>

definition match_call :: "string \<Rightarrow> string \<Rightarrow> matcher" where
  "match_call name terminator prev s =
     (if startswith s name then
        (let r = drop (length name) s;
             args = takeWhile (\<lambda>c. c \<noteq> CHR '')'') r;
             r1 = drop (length args) r;
             ws = takeWhile is_space (drop 1 r1);
             r2 = drop (length ws) (drop 1 r1)
         in if args \<noteq> [] \<and> startswith r1 '')'' \<and> startswith r2 terminator
            then Some (length name + length args + 1 + length ws + length terminator, [])
            else None)
      else None)"

text \<open>\<open>(\\s+)self\\.handle_api_error\\(e,\\s*[^)]+\\)\<close>, replaced by group 1 and
  \<open>map_api_error(e)\<close>. Whitespace is not \<open>)\<close>, so \<open>\\s*[^)]+\<close> matches exactly the non-empty
  runs without \<open>)\<close>.\<close>

definition match_handle_api_error :: matcher where
  "match_handle_api_error prev s =
     (let ws = takeWhile is_space s;
          r = drop (length ws) s;
          name = ''self.handle_api_error(e,'';
          args = takeWhile (\<lambda>c. c \<noteq> CHR '')'') (drop (length name) r);
          r1 = drop (length args) (drop (length name) r)
      in if ws \<noteq> [] \<and> startswith r name \<and> args \<noteq> [] \<and> startswith r1 '')''
         then Some (length ws + length name + length args + 1, ws @ ''map_api_error(e)'')
         else None)"

text \<open>\<open>&mut metadata|&metadata|\\bmetadata\\b,?\\s*\<close>, the alternatives tried in order.\<close>

definition word_before :: "char option \<Rightarrow> bool" where
  "word_before prev = (case prev of None \<Rightarrow> False | Some c \<Rightarrow> is_word c)"

definition word_at :: "string \<Rightarrow> bool" where
  "word_at s = (case s of [] \<Rightarrow> False | c # cs \<Rightarrow> is_word c)"

definition match_metadata :: matcher where
  "match_metadata prev s =
     (if startswith s ''&mut metadata'' then Some (13, [])
      else if startswith s ''&metadata'' then Some (9, [])
      else if \<not> word_before prev \<and> startswith s ''metadata'' \<and> \<not> word_at (drop 8 s) then
        (let r = drop 8 s;
             r1 = (if startswith r '','' then drop 1 r else r);
             ws = takeWhile is_space r1
         in Some (8 + (length r - length r1) + length ws, []))
      else None)"

subsection \<open>The script\<close>

definition match_before_request :: matcher where
  "match_before_request = match_call ''        self.call_before_request('' ''.await?;\<newline>''"

definition match_after_response :: matcher where
  "match_after_response = match_call ''        self.call_after_response('' ''.await;\<newline>''"

text \<open>The four substitutions, each applied to the result of the one before.\<close>

definition fix_client :: "string \<Rightarrow> string" where
  "fix_client content =
     (let c1 = re_sub match_before_request content;
          c2 = re_sub match_handle_api_error c1;
          c3 = re_sub match_after_response c2
      in re_sub match_metadata c3)"

definition fix_client_main :: "io_fault \<Rightarrow> string option \<Rightarrow> failure option \<times> string option" where
  "fix_client_main = run_script fix_client"

text \<open>A pattern matches nowhere in a text when its scan keeps every character; a text in which
  none of the four patterns matches.\<close>

fun is_kept :: "piece \<Rightarrow> bool" where
  "is_kept (Kept c) = True"
| "is_kept (Matched t r) = False"

definition no_match :: "matcher \<Rightarrow> string \<Rightarrow> bool" where
  "no_match m s = list_all is_kept (re_scan m None s)"

definition matches_nothing :: "string \<Rightarrow> bool" where
  "matches_nothing s =
     (no_match match_before_request s \<and> no_match match_handle_api_error s \<and>
      no_match match_after_response s \<and> no_match match_metadata s)"

text \<open>The length of the text a piece takes from the input, and of what replaces it, for a
  match.\<close>

fun matched_len :: "piece \<Rightarrow> nat" where
  "matched_len (Kept c) = 0"
| "matched_len (Matched t r) = length t"

fun replaced_len :: "piece \<Rightarrow> nat" where
  "replaced_len (Kept c) = 0"
| "replaced_len (Matched t r) = length r"


declare re_scan.simps [simp del]

lemmas fix_simps = fix_client_def re_sub_def re_scan.simps match_call_def match_handle_api_error_def
  match_before_request_def match_after_response_def
  match_metadata_def word_before_def word_at_def is_space_def is_word_def

section \<open>Properties of \<open>refactor\<close>\<close>

text \<open>Unfolding rules for evaluating the model on concrete input.\<close>

lemmas scan_simps = skip_macro.simps skip_method.simps skip_to_brace.simps skip_block.simps
  skip_until.simps collect_stmt.simps

lemmas eval_simps = refactor_def refactor_applied_def refactor_loop.simps loop_indices.simps
  refactor_step_def rule_of_def next_index_def emitted_def span_at_def scan_simps
  is_space_def strip_def lstrip_def rstrip_def endswith_def count_braces_def count_char_def
  map_api_error_line_def depth_after_def brace_delta_def block_end_def

subsection \<open>The iterations of the loop\<close>

lemma next_index_gt: "i < length lines \<Longrightarrow> i < next_index lines i"
  by (simp add: next_index_def refactor_step_advances)

lemma loop_indices_bounds: "k \<in> set (loop_indices lines i) \<Longrightarrow> i \<le> k \<and> k < length lines"
proof (induction lines i rule: loop_indices.induct)
  case (1 lines i)
  show ?case
  proof (cases "i < length lines")
    case True
    from 1(2) True have "k = i \<or> k \<in> set (loop_indices lines (next_index lines i))"
      by (subst (asm) loop_indices.simps) simp
    then show ?thesis
    proof
      assume "k = i"
      then show ?thesis using True by simp
    next
      assume "k \<in> set (loop_indices lines (next_index lines i))"
      from 1(1) [OF True this] next_index_gt [OF True] show ?thesis by simp
    qed
  next
    case False
    with 1(2) show ?thesis by (subst (asm) loop_indices.simps) simp
  qed
qed

lemma loop_indices_increasing: "sorted_wrt (<) (loop_indices lines i)"
proof (induction lines i rule: loop_indices.induct)
  case (1 lines i)
  show ?case
  proof (cases "i < length lines")
    case True
    have "\<forall>k \<in> set (loop_indices lines (next_index lines i)). i < k"
      using loop_indices_bounds [of _ lines "next_index lines i"] next_index_gt [OF True]
      by fastforce
    with 1 [OF True] True show ?thesis
      by (subst loop_indices.simps) simp
  next
    case False
    then show ?thesis by (subst loop_indices.simps) simp
  qed
qed

lemma loop_indices_length: "length (loop_indices lines i) \<le> length lines - i"
proof (induction lines i rule: loop_indices.induct)
  case (1 lines i)
  show ?case
  proof (cases "i < length lines")
    case True
    from 1 [OF True] next_index_gt [OF True] True show ?thesis
      by (subst loop_indices.simps) simp
  next
    case False
    then show ?thesis by (subst loop_indices.simps) simp
  qed
qed

lemma refactor_loop_eq:
  "refactor_loop lines i out app =
     (out @ concat (map (emitted lines) (loop_indices lines i)),
      app @ concat (map (span_at lines) (loop_indices lines i)))"
proof (induction lines i out app rule: refactor_loop.induct)
  case (1 lines i out app)
  show ?case
  proof (cases "i < length lines")
    case True
    obtain r i' new where step: "refactor_step lines i = (r, i', new)"
      by (cases "refactor_step lines i") auto
    then have parts: "rule_of lines i = r" "next_index lines i = i'" "emitted lines i = new"
      by (simp_all add: rule_of_def next_index_def emitted_def)
    have li: "loop_indices lines i = i # loop_indices lines i'"
      using True parts by (subst loop_indices.simps) simp
    show ?thesis
    proof (cases r)
      case None
      have rl: "refactor_loop lines i out app = refactor_loop lines i' (out @ new) app"
        using True step None by (subst refactor_loop.simps) simp
      from 1(1) [OF True step [unfolded None, symmetric] refl]
      show ?thesis using None parts
        by (simp add: rl li span_at_def)
    next
      case (Some rid)
      have rl: "refactor_loop lines i out app =
                  refactor_loop lines i' (out @ new) (app @ [(rid, i, min i' (length lines) - 1)])"
        using True step Some by (subst refactor_loop.simps) simp
      from 1(2) [OF True step [unfolded Some, symmetric] refl]
      show ?thesis using Some parts
        by (simp add: rl li span_at_def)
    qed
  next
    case False
    have "loop_indices lines i = []"
      using False by (subst loop_indices.simps) simp
    moreover have "refactor_loop lines i out app = (out, app)"
      using False by (subst refactor_loop.simps) simp
    ultimately show ?thesis by simp
  qed
qed


lemma span_at_elem:
  assumes "(r, s, e) \<in> set (span_at lines k)" "k < length lines"
  shows "s = k \<and> k \<le> e \<and> e < length lines \<and> e < next_index lines k \<and> rule_of lines k = Some r"
  using assms next_index_gt [OF assms(2)]
  by (auto simp: span_at_def split: option.splits)

lemma spans_elem:
  assumes "(r, s, e) \<in> set (concat (map (span_at lines) (loop_indices lines j)))"
  shows "j \<le> s \<and> s \<le> e \<and> e < length lines \<and> s \<in> set (loop_indices lines j)"
proof -
  from assms obtain k where k: "k \<in> set (loop_indices lines j)" "(r, s, e) \<in> set (span_at lines k)"
    by auto
  from loop_indices_bounds [OF k(1)] span_at_elem [OF k(2)] k(1) show ?thesis by auto
qed

lemma spans_sorted:
  "sorted_wrt (\<lambda>(r1, s1, e1) (r2, s2, e2). e1 < s2)
     (concat (map (span_at lines) (loop_indices lines i)))"
proof (induction lines i rule: loop_indices.induct)
  case (1 lines i)
  show ?case
  proof (cases "i < length lines")
    case True
    have li: "loop_indices lines i = i # loop_indices lines (next_index lines i)"
      using True by (subst loop_indices.simps) simp
    have cross: "e1 < s2"
      if "(r1, s1, e1) \<in> set (span_at lines i)"
        and "(r2, s2, e2) \<in> set (concat (map (span_at lines) (loop_indices lines (next_index lines i))))"
      for r1 s1 e1 r2 s2 e2
      using span_at_elem [OF that(1) True] spans_elem [OF that(2)] by simp
    have single: "sorted_wrt (\<lambda>(r1, s1, e1) (r2, s2, e2). e1 < s2) (span_at lines i)"
      by (simp add: span_at_def split: option.splits)
    from 1 [OF True] single cross show ?thesis
      by (simp add: li sorted_wrt_append) blast
  next
    case False
    then have "loop_indices lines i = []" by (subst loop_indices.simps) simp
    then show ?thesis by simp
  qed
qed

subsection \<open>Termination\<close>

text \<open>
  C10. The main loop of \<open>refactor\<close> terminates on every list of lines. \<^const>\<open>refactor_loop\<close> is
  a total function, its termination proved with the measure \<open>len(lines) - i\<close>. Every iteration
  that runs (\<open>i < len(lines)\<close>) leaves the index strictly larger, the loop body runs at most
  \<open>len(lines) - i\<close> times from index \<open>i\<close>, and the output is what those finitely many
  iterations append.
\<close>

theorem refactor_loop_terminates:
  "(i < length lines \<longrightarrow> i < next_index lines i) \<and>
   length (loop_indices lines i) \<le> length lines - i \<and>
   fst (refactor_loop lines i out app) = out @ concat (map (emitted lines) (loop_indices lines i))"
  by (simp add: next_index_gt loop_indices_length refactor_loop_eq)

theorem refactor_loop_terminates_witness:
  "1 < length [''a\<newline>'', ''        self.call_before_request(\<newline>'', ''x).await?;\<newline>'', ''b\<newline>''] \<and>
   next_index [''a\<newline>'', ''        self.call_before_request(\<newline>'', ''x).await?;\<newline>'', ''b\<newline>''] 1 = 3 \<and>
   loop_indices [''a\<newline>'', ''        self.call_before_request(\<newline>'', ''x).await?;\<newline>'', ''b\<newline>''] 1 = [1, 3] \<and>
   length (loop_indices [''a\<newline>'', ''        self.call_before_request(\<newline>'', ''x).await?;\<newline>'', ''b\<newline>''] 1) \<le> 3"
  using refactor_loop_terminates [of 1 "[''a\<newline>'', ''        self.call_before_request(\<newline>'', ''x).await?;\<newline>'', ''b\<newline>'']" "[]" "[]"]
  by (simp add: eval_simps)

subsection \<open>The audit trail\<close>

text \<open>
  C7. For every run of \<open>refactor\<close>, the applied records \<open>(rule_id, start_index, end_index)\<close>
  are pairwise disjoint and strictly increasing: every record ends before each later record
  starts, and every record is a non-empty span inside the buffer.
\<close>

theorem applied_spans_disjoint_increasing:
  "sorted_wrt (\<lambda>(r1, s1, e1) (r2, s2, e2). e1 < s2) (refactor_applied lines) \<and>
   list_all (\<lambda>(r, s, e). s \<le> e \<and> e < length lines) (refactor_applied lines)"
proof -
  have eq: "refactor_applied lines = concat (map (span_at lines) (loop_indices lines 0))"
    by (simp add: refactor_applied_def refactor_loop_eq)
  have "list_all (\<lambda>(r, s, e). s \<le> e \<and> e < length lines) (refactor_applied lines)"
    unfolding eq list_all_iff using spans_elem [of _ _ _ lines 0] by blast
  then show ?thesis using spans_sorted [of lines 0] by (simp add: eq)
qed

theorem applied_spans_disjoint_increasing_witness:
  "refactor_applied
     [''use crate::interceptor::X;\<newline>'', ''a\<newline>'',
      ''        self.call_before_request(\<newline>'', ''x).await?;\<newline>'', ''b\<newline>'']
     = [(InterceptorImport, 0, 0), (BeforeRequest, 2, 3)] \<and>
   sorted_wrt (\<lambda>(r1, s1, e1) (r2, s2, e2). e1 < s2)
     (refactor_applied
        [''use crate::interceptor::X;\<newline>'', ''a\<newline>'',
      ''        self.call_before_request(\<newline>'', ''x).await?;\<newline>'', ''b\<newline>''])"
  using applied_spans_disjoint_increasing
    [of "[''use crate::interceptor::X;\<newline>'', ''a\<newline>'',
      ''        self.call_before_request(\<newline>'', ''x).await?;\<newline>'', ''b\<newline>'']"]
  by (simp add: eval_simps)

subsection \<open>The step, rule by rule\<close>

lemma if_chain: "P a \<Longrightarrow> P b \<Longrightarrow> P (if c then a else b)"
  by simp

lemma refactor_step_by_rule:
  "refactor_step lines i =
     (rule_of lines i, rule_next (rule_of lines i) lines i, replacement (rule_of lines i) (lines ! i))"
proof -
  have "refactor_step lines i =
     (fst (refactor_step lines i), rule_next (fst (refactor_step lines i)) lines i,
      replacement (fst (refactor_step lines i)) (lines ! i))"
    unfolding refactor_step_def Let_def
    by (intro if_chain [where P = "\<lambda>t. t = (fst t, rule_next (fst t) lines i, replacement (fst t) (lines ! i))"])
      (simp_all add: Let_def)
  then show ?thesis by (simp add: rule_of_def)
qed

lemma next_index_by_rule: "next_index lines i = rule_next (rule_of lines i) lines i"
  using refactor_step_by_rule [of lines i] by (simp add: next_index_def)

lemma emitted_by_rule: "emitted lines i = replacement (rule_of lines i) (lines ! i)"
  using refactor_step_by_rule [of lines i] by (simp add: emitted_def)


subsection \<open>The brace counter\<close>

lemma contains_single: "contains [c] s = (c \<in> set s)"
  by (induction s) auto

lemma count_char_absent: "c \<notin> set s \<Longrightarrow> count_char c s = 0"
  by (induction s) (auto simp: count_char_def)

lemma count_braces_delta: "count_braces b line = b + brace_delta line"
  by (simp add: count_braces_def brace_delta_def Let_def contains_single count_char_absent)

lemma depth_after_self: "s < length lines \<Longrightarrow> depth_after lines s s = brace_delta (lines ! s)"
  by (simp add: depth_after_def take_Suc_conv_app_nth hd_drop_conv_nth take_Suc)

lemma depth_after_step:
  assumes "s < k" "s < length lines"
  shows "depth_after lines s k = brace_delta (lines ! s) + depth_after lines (Suc s) k"
proof -
  have "k + 1 - s = Suc (k + 1 - Suc s)" using assms by simp
  moreover have "drop s lines = lines ! s # drop (Suc s) lines"
    using assms by (simp add: Cons_nth_drop_Suc)
  ultimately show ?thesis by (simp add: depth_after_def)
qed

lemma skip_block_first_end:
  assumes "s \<le> j" "j < length lines"
    and "b + depth_after lines s j = 0" "strip (lines ! j) = ''}''"
    and "\<forall>k. s \<le> k \<and> k < j \<longrightarrow> \<not> (b + depth_after lines s k = 0 \<and> strip (lines ! k) = ''}'')"
  shows "skip_block lines s b = j + 1"
  using assms
proof (induction "j - s" arbitrary: s b)
  case 0
  then have "s = j" by simp
  with 0 show ?case
    by (subst skip_block.simps) (simp add: count_braces_delta depth_after_self)
next
  case (Suc n)
  then have lt: "s < j" "s < length lines" by simp_all
  let ?b = "b + brace_delta (lines ! s)"
  have here: "\<not> (?b = 0 \<and> strip (lines ! s) = ''}'')"
    using Suc.prems(5) lt depth_after_self [of s lines] by force
  have rest: "\<forall>k. Suc s \<le> k \<and> k < j \<longrightarrow>
      \<not> (?b + depth_after lines (Suc s) k = 0 \<and> strip (lines ! k) = ''}'')"
  proof (intro allI impI)
    fix k assume k: "Suc s \<le> k \<and> k < j"
    then have "depth_after lines s k = brace_delta (lines ! s) + depth_after lines (Suc s) k"
      using depth_after_step [of s k lines] lt by simp
    with Suc.prems(5) k show "\<not> (?b + depth_after lines (Suc s) k = 0 \<and> strip (lines ! k) = ''}'')"
      by (metis Suc_leD add.assoc)
  qed
  have "?b + depth_after lines (Suc s) j = 0"
    using Suc.prems(3) depth_after_step [OF lt] by simp
  with Suc.hyps(1) [of "Suc s" ?b] Suc.hyps(2) lt Suc.prems(2,4) rest
  have "skip_block lines (Suc s) ?b = j + 1" by simp
  with here lt show ?case
    by (subst skip_block.simps) (simp add: count_braces_delta Let_def)
qed


text \<open>
  C1 (as the code has it). The helper-block scan starts at the line after the marker with the
  counter at zero; each scanned line adds its number of \<open>{\<close> and subtracts its number of \<open>}\<close>
  (any number per line). The span ends at the first scanned line after which the counter is
  zero and which, stripped, is exactly \<open>}\<close>. For the construct laid out as marker, \<open>X {\<close>,
  \<open>A {\<close>, \<open>}\<close>, \<open>B\<close>, \<open>}\<close>, \<open>tail\<close> that is the final \<open>}\<close> before \<open>tail\<close>, never an earlier line.
\<close>

theorem helper_block_span_end:
  assumes "rule_of lines i = Some HelperBlock" and "i < j" and "j < length lines"
    and "block_end lines (i + 1) j"
    and "\<forall>k. i < k \<and> k < j \<longrightarrow> \<not> block_end lines (i + 1) k"
  shows "next_index lines i = j + 1 \<and> span_at lines i = [(HelperBlock, i, j)] \<and>
         (\<forall>b line. count_braces b line =
            b + int (count_char CHR ''{'' line) - int (count_char CHR ''}'' line))"
proof -
  have "skip_block lines (i + 1) 0 = j + 1"
  proof (rule skip_block_first_end)
    show "i + 1 \<le> j" "j < length lines" using assms(2,3) by simp_all
    show "0 + depth_after lines (i + 1) j = 0" "strip (lines ! j) = ''}''"
      using assms(4) by (simp_all add: block_end_def)
    show "\<forall>k. i + 1 \<le> k \<and> k < j \<longrightarrow>
            \<not> (0 + depth_after lines (i + 1) k = 0 \<and> strip (lines ! k) = ''}'')"
      using assms(5) by (simp add: block_end_def)
  qed
  then have next_eq: "next_index lines i = j + 1"
    using assms(1) by (simp add: next_index_by_rule)
  then have "span_at lines i = [(HelperBlock, i, j)]"
    using assms(1,3) by (simp add: span_at_def)
  with next_eq show ?thesis
    using count_braces_delta by (simp add: brace_delta_def)
qed

theorem helper_block_span_end_witness:
  "rule_of [''// Interceptor helper methods\<newline>'', ''X {\<newline>'', ''A {\<newline>'', ''}\<newline>'', ''B\<newline>'', ''}\<newline>'', ''tail\<newline>''] 0 = Some HelperBlock \<and>
   block_end [''// Interceptor helper methods\<newline>'', ''X {\<newline>'', ''A {\<newline>'', ''}\<newline>'', ''B\<newline>'', ''}\<newline>'', ''tail\<newline>''] 1 5 \<and>
   next_index [''// Interceptor helper methods\<newline>'', ''X {\<newline>'', ''A {\<newline>'', ''}\<newline>'', ''B\<newline>'', ''}\<newline>'', ''tail\<newline>''] 0 = 6 \<and>
   span_at [''// Interceptor helper methods\<newline>'', ''X {\<newline>'', ''A {\<newline>'', ''}\<newline>'', ''B\<newline>'', ''}\<newline>'', ''tail\<newline>''] 0 = [(HelperBlock, 0, 5)]"
proof -
  let ?L = "[''// Interceptor helper methods\<newline>'', ''X {\<newline>'', ''A {\<newline>'', ''}\<newline>'', ''B\<newline>'', ''}\<newline>'', ''tail\<newline>'']"
  have r: "rule_of ?L 0 = Some HelperBlock" by (simp add: eval_simps)
  have e: "block_end ?L 1 5" by (simp add: eval_simps)
  have n: "\<forall>k. 0 < k \<and> k < 5 \<longrightarrow> \<not> block_end ?L (0 + 1) k"
  proof (intro allI impI)
    fix k :: nat assume "0 < k \<and> k < 5"
    then have "k = 1 \<or> k = 2 \<or> k = 3 \<or> k = 4" by arith
    then show "\<not> block_end ?L (0 + 1) k" by (elim disjE) (simp_all add: eval_simps)
  qed
  from helper_block_span_end [of ?L 0 5] r e n show ?thesis by simp
qed

text \<open>The counter returning to zero does not end the span by itself: below, the depth after
  lines 1, 2, 3 is 1, 2, 0, but line 3 is \<open>} }\<close>, the scan runs on to the next lone \<open>}\<close> at
  line 5, and the function \<open>keep\<close> is removed with the block.\<close>

theorem helper_block_not_first_balance:
  "depth_after [''// Interceptor helper methods\<newline>'', ''impl Client {\<newline>'', ''    fn a() {\<newline>'', ''    } }\<newline>'', ''fn keep() {\<newline>'', ''}\<newline>'', ''tail\<newline>''] 1 1 = 1 \<and>
   depth_after [''// Interceptor helper methods\<newline>'', ''impl Client {\<newline>'', ''    fn a() {\<newline>'', ''    } }\<newline>'', ''fn keep() {\<newline>'', ''}\<newline>'', ''tail\<newline>''] 1 2 = 2 \<and>
   depth_after [''// Interceptor helper methods\<newline>'', ''impl Client {\<newline>'', ''    fn a() {\<newline>'', ''    } }\<newline>'', ''fn keep() {\<newline>'', ''}\<newline>'', ''tail\<newline>''] 1 3 = 0 \<and>
   span_at [''// Interceptor helper methods\<newline>'', ''impl Client {\<newline>'', ''    fn a() {\<newline>'', ''    } }\<newline>'', ''fn keep() {\<newline>'', ''}\<newline>'', ''tail\<newline>''] 0 = [(HelperBlock, 0, 5)] \<and>
   refactor [''// Interceptor helper methods\<newline>'', ''impl Client {\<newline>'', ''    fn a() {\<newline>'', ''    } }\<newline>'', ''fn keep() {\<newline>'', ''}\<newline>'', ''tail\<newline>''] = [''tail\<newline>'']"
  by (simp add: eval_simps)

subsection \<open>The replacement of \<open>handle_api_error\<close>\<close>

text \<open>
  C9 (as the code has it). A line containing \<open>.handle_api_error(\<close> at which the loop body runs is
  never kept: it is taken by the \<open>handle_api_error\<close> branch or by one of the branches tested before
  it. Where the \<open>handle_api_error\<close> branch is taken, the line appended to the output is one space
  for every leading whitespace character of the original line, then the fixed text
  \<open>map_api_error(e)\<close> and a newline: the identifier is always \<open>e\<close> and the indentation width is
  that of the original line. The indentation itself is rebuilt from spaces; it is the original
  leading whitespace exactly when that consists of spaces only.
\<close>

theorem handle_api_error_replacement:
  assumes "contains ''.handle_api_error('' (lines ! i)"
  shows "rule_of lines i \<noteq> None \<and> rule_of lines i \<noteq> Some AfterResponse \<and>
         (rule_of lines i = Some HandleApiError \<longrightarrow>
            emitted lines i =
              [replicate (length (takeWhile is_space (lines ! i))) CHR '' '' @ ''map_api_error(e)\<newline>''] \<and>
            (emitted lines i = [takeWhile is_space (lines ! i) @ ''map_api_error(e)\<newline>''] \<longleftrightarrow>
               set (takeWhile is_space (lines ! i)) \<subseteq> {CHR '' ''}))"
proof -
  let ?ws = "takeWhile is_space (lines ! i)"
  have taken: "fst (refactor_step lines i) \<noteq> None \<and> fst (refactor_step lines i) \<noteq> Some AfterResponse"
    unfolding refactor_step_def Let_def
    apply (simp only: assms if_True)
    apply (intro if_chain [where P = "\<lambda>t. fst t \<noteq> None \<and> fst t \<noteq> Some AfterResponse"])
    apply simp_all
    done
  have "length ?ws + length (dropWhile is_space (lines ! i)) = length (lines ! i)"
    by (metis length_append takeWhile_dropWhile_id)
  then have len: "length (lines ! i) - length (lstrip (lines ! i)) = length ?ws"
    by (simp add: lstrip_def)
  have spaces: "(replicate (length ?ws) CHR '' '' = ?ws) = (set ?ws \<subseteq> {CHR '' ''})"
  proof
    assume "replicate (length ?ws) CHR '' '' = ?ws"
    then have "set ?ws = set (replicate (length ?ws) CHR '' '')" by simp
    then show "set ?ws \<subseteq> {CHR '' ''}" by (simp add: set_replicate_conv_if)
  next
    assume "set ?ws \<subseteq> {CHR '' ''}"
    then show "replicate (length ?ws) CHR '' '' = ?ws"
      by (metis replicate_length_same singletonD subsetD)
  qed
  have "emitted lines i = [replicate (length ?ws) CHR '' '' @ ''map_api_error(e)\<newline>'']"
    if "rule_of lines i = Some HandleApiError"
    using that len by (simp add: emitted_by_rule map_api_error_line_def)
  with taken spaces show ?thesis by (auto simp: rule_of_def)
qed

theorem handle_api_error_replacement_witness:
  "contains ''.handle_api_error('' ([''    Err(err) => Err(self.handle_api_error(err, op).await),\<newline>''] ! 0) \<and>
   rule_of [''    Err(err) => Err(self.handle_api_error(err, op).await),\<newline>''] 0 = Some HandleApiError \<and>
   emitted [''    Err(err) => Err(self.handle_api_error(err, op).await),\<newline>''] 0 = [''    map_api_error(e)\<newline>'']"
proof -
  let ?L = "[''    Err(err) => Err(self.handle_api_error(err, op).await),\<newline>'']"
  have c: "contains ''.handle_api_error('' (?L ! 0)" by simp
  have r: "rule_of ?L 0 = Some HandleApiError" by (simp add: eval_simps)
  from handle_api_error_replacement [OF c] r c show ?thesis by (simp add: is_space_def)
qed

text \<open>A line indented with a tab: the replacement is indented with a space, which is not the
  leading whitespace of the original line.\<close>

theorem handle_api_error_tab_indent:
  "rule_of [CHR 0x09 # ''self.handle_api_error(err, op);\<newline>''] 0 = Some HandleApiError \<and>
   takeWhile is_space (CHR 0x09 # ''self.handle_api_error(err, op);\<newline>'') = [CHR 0x09] \<and>
   emitted [CHR 0x09 # ''self.handle_api_error(err, op);\<newline>''] 0 = ['' map_api_error(e)\<newline>'']"
  by (simp add: eval_simps)

subsection \<open>Constructs without terminator\<close>

lemma skip_until_absent:
  assumes "\<forall>j. i \<le> j \<and> j < length lines \<longrightarrow> \<not> contains tok (lines ! j)" "i \<le> length lines"
  shows "skip_until tok lines i = length lines"
  using assms
proof (induction tok lines i rule: skip_until.induct)
  case (1 tok lines i)
  show ?case
  proof (cases "i < length lines")
    case True
    with 1(2) have no: "\<not> contains tok (lines ! i)" by simp
    have "skip_until tok lines (i + 1) = length lines"
      using 1(1) [OF True no] 1(2) True by simp
    with True no show ?thesis by (subst skip_until.simps) simp
  next
    case False
    with 1(3) show ?thesis by (subst skip_until.simps) simp
  qed
qed

lemma skip_macro_absent:
  assumes "\<forall>j. i \<le> j \<and> j < length lines \<longrightarrow>
             \<not> (strip (lines ! j) = ''}'' \<and> j + 1 < length lines \<and> strip (lines ! (j + 1)) = ''}'')"
    and "i \<le> length lines"
  shows "skip_macro lines i = length lines"
  using assms
proof (induction lines i rule: skip_macro.induct)
  case (1 lines i)
  show ?case
  proof (cases "i < length lines")
    case True
    have go: "\<not> (strip (lines ! i) = ''}'' \<and> i + 1 < length lines \<and> strip (lines ! (i + 1)) = ''}'')"
      using 1(2) True by auto
    have "skip_macro lines (i + 1) = length lines"
      using 1(1) 1(2) True go by simp
    with True go show ?thesis by (subst skip_macro.simps) simp
  next
    case False
    with 1(3) show ?thesis by (subst skip_macro.simps) simp
  qed
qed

lemma skip_method_absent:
  assumes "\<forall>j. i \<le> j \<and> j < length lines \<longrightarrow>
             \<not> (strip (lines ! j) = ''}'' \<and>
                (j + 1 \<ge> length lines \<or> \<not> startswith (strip (lines ! (j + 1))) ''//''))"
    and "i \<le> length lines"
  shows "skip_method lines i = length lines"
  using assms
proof (induction lines i rule: skip_method.induct)
  case (1 lines i)
  show ?case
  proof (cases "i < length lines")
    case True
    have go: "\<not> (strip (lines ! i) = ''}'' \<and>
                (i + 1 \<ge> length lines \<or> \<not> startswith (strip (lines ! (i + 1))) ''//''))"
      using 1(2) True by auto
    have "skip_method lines (i + 1) = length lines"
      using 1(1) 1(2) True go by simp
    with True go show ?thesis by (subst skip_method.simps) simp
  next
    case False
    with 1(3) show ?thesis by (subst skip_method.simps) simp
  qed
qed

lemma skip_to_brace_absent:
  assumes "\<forall>j. i \<le> j \<and> j < length lines \<longrightarrow> strip (lines ! j) \<noteq> ''}''"
    and "i \<le> length lines"
  shows "skip_to_brace lines i = length lines"
  using assms
proof (induction lines i rule: skip_to_brace.induct)
  case (1 lines i)
  show ?case
  proof (cases "i < length lines")
    case True
    have go: "strip (lines ! i) \<noteq> ''}''"
      using 1(2) True by auto
    have "skip_to_brace lines (i + 1) = length lines"
      using 1(1) 1(2) True go by simp
    with True go show ?thesis by (subst skip_to_brace.simps) simp
  next
    case False
    with 1(3) show ?thesis by (subst skip_to_brace.simps) simp
  qed
qed

lemma skip_block_absent:
  assumes "\<forall>j. s \<le> j \<and> j < length lines \<longrightarrow>
             \<not> (b + depth_after lines s j = 0 \<and> strip (lines ! j) = ''}'')"
    and "s \<le> length lines"
  shows "skip_block lines s b = length lines"
  using assms
proof (induction "length lines - s" arbitrary: s b)
  case 0
  then have "\<not> s < length lines" by simp
  with 0 show ?case by (subst skip_block.simps) simp
next
  case (Suc n)
  then have lt: "s < length lines" by simp
  let ?b = "b + brace_delta (lines ! s)"
  have here: "\<not> (?b = 0 \<and> strip (lines ! s) = ''}'')"
    using Suc.prems(1) lt depth_after_self [of s lines] by force
  have rest: "\<forall>k. Suc s \<le> k \<and> k < length lines \<longrightarrow>
      \<not> (?b + depth_after lines (Suc s) k = 0 \<and> strip (lines ! k) = ''}'')"
  proof (intro allI impI)
    fix k assume k: "Suc s \<le> k \<and> k < length lines"
    then have "depth_after lines s k = brace_delta (lines ! s) + depth_after lines (Suc s) k"
      using depth_after_step [of s k lines] lt by simp
    with Suc.prems(1) k show "\<not> (?b + depth_after lines (Suc s) k = 0 \<and> strip (lines ! k) = ''}'')"
      by (metis Suc_leD add.assoc)
  qed
  have "skip_block lines (Suc s) ?b = length lines"
    using Suc.hyps(1) [of "Suc s" ?b] Suc.hyps(2) lt rest by simp
  with here lt show ?case
    by (subst skip_block.simps) (auto simp: count_braces_delta Let_def)
qed

lemma collect_stmt_absent:
  assumes "\<forall>j. i \<le> j \<and> j < length lines \<longrightarrow>
             \<not> endswith (rstrip (stmt @ concat (take (j - i) (drop (i + 1) lines)))) '';''"
    and "i \<le> length lines"
  shows "collect_stmt lines i stmt = length lines"
  using assms
proof (induction lines i stmt rule: collect_stmt.induct)
  case (1 lines i stmt)
  show ?case
  proof (cases "i < length lines")
    case True
    from 1(2) True have go: "\<not> endswith (rstrip stmt) '';''"
      by (metis append_Nil2 concat.simps(1) diff_self_eq_0 le_refl take_0)
    let ?stmt = "if i + 1 < length lines then stmt @ lines ! (i + 1) else stmt"
    have rest: "\<forall>j. i + 1 \<le> j \<and> j < length lines \<longrightarrow>
        \<not> endswith (rstrip (?stmt @ concat (take (j - (i + 1)) (drop (i + 1 + 1) lines)))) '';''"
    proof (intro allI impI)
      fix j assume j: "i + 1 \<le> j \<and> j < length lines"
      then have d: "drop (i + 1) lines = lines ! (i + 1) # drop (i + 1 + 1) lines"
        by (simp add: Cons_nth_drop_Suc)
      from j have "j - i = Suc (j - (i + 1))" by arith
      then have "stmt @ concat (take (j - i) (drop (i + 1) lines)) =
                   ?stmt @ concat (take (j - (i + 1)) (drop (i + 1 + 1) lines))"
        using j d by simp
      with 1(2) j show "\<not> endswith (rstrip (?stmt @ concat (take (j - (i + 1)) (drop (i + 1 + 1) lines)))) '';''"
        by (metis add_leD1)
    qed
    have "collect_stmt lines (i + 1) ?stmt = length lines"
      using 1(1) [of ] True go rest by simp
    with True go show ?thesis by (subst collect_stmt.simps) simp
  next
    case False
    with 1(3) show ?thesis by (subst collect_stmt.simps) simp
  qed
qed

lemma unterminated_leaves_buffer:
  assumes "i < length lines" and "unterminated lines i"
  shows "length lines \<le> next_index lines i"
proof -
  from assms(2) obtain r where r: "rule_of lines i = Some r"
    and no: "\<forall>j. i \<le> j \<and> j < length lines \<longrightarrow> \<not> terminates_at r lines i j"
    by (auto simp: unterminated_def list_all_iff split: option.splits)
  from no assms(1) have at_i: "\<not> terminates_at r lines i i" by simp
  show ?thesis
  proof (cases r)
    case MacroDefinition
    with no have "skip_macro lines i = length lines"
      using assms(1) by (intro skip_macro_absent) simp_all
    with r MacroDefinition show ?thesis by (simp add: next_index_by_rule)
  next
    case WithInterceptor
    with no have "skip_method lines i = length lines"
      using assms(1) by (intro skip_method_absent) simp_all
    with r WithInterceptor show ?thesis by (simp add: next_index_by_rule)
  next
    case InterceptorsAccessor
    with no have "skip_to_brace lines i = length lines"
      using assms(1) by (intro skip_to_brace_absent) simp_all
    with r InterceptorsAccessor show ?thesis by (simp add: next_index_by_rule)
  next
    case HelperBlock
    with no have "\<forall>j. i + 1 \<le> j \<and> j < length lines \<longrightarrow>
             \<not> (0 + depth_after lines (i + 1) j = 0 \<and> strip (lines ! j) = ''}'')"
      by (simp add: block_end_def)
    then have "skip_block lines (i + 1) 0 = length lines"
      using assms(1) by (intro skip_block_absent) simp_all
    with r HelperBlock show ?thesis by (simp add: next_index_by_rule)
  next
    case BeforeRequest
    with no have "skip_until ''.await?'' lines i = length lines"
      using assms(1) by (intro skip_until_absent) simp_all
    with r BeforeRequest show ?thesis by (simp add: next_index_by_rule)
  next
    case HandleApiError
    have "\<forall>j. i \<le> j \<and> j < length lines \<longrightarrow>
             \<not> endswith (rstrip (lines ! i @ concat (take (j - i) (drop (i + 1) lines)))) '';''"
    proof (intro allI impI)
      fix j assume j: "i \<le> j \<and> j < length lines"
      have "drop i lines = lines ! i # drop (i + 1) lines"
        using assms(1) by (simp add: Cons_nth_drop_Suc)
      moreover have "j + 1 - i = Suc (j - i)" using j by arith
      ultimately have eq: "concat (take (j + 1 - i) (drop i lines)) =
                         lines ! i @ concat (take (j - i) (drop (i + 1) lines))"
        by simp
      from no j have "\<not> terminates_at r lines i j" by blast
      then have "\<not> endswith (rstrip (concat (take (j + 1 - i) (drop i lines)))) '';''"
        unfolding HandleApiError by simp
      then show "\<not> endswith (rstrip (lines ! i @ concat (take (j - i) (drop (i + 1) lines)))) '';''"
        unfolding eq .
    qed
    then have "collect_stmt lines i (lines ! i) = length lines"
      using assms(1) by (intro collect_stmt_absent) simp_all
    with r HandleApiError show ?thesis by (simp add: next_index_by_rule)
  next
    case AfterResponse
    with no have "skip_until ''.await;'' lines i = length lines"
      using assms(1) by (intro skip_until_absent) simp_all
    with r AfterResponse show ?thesis by (simp add: next_index_by_rule)
  qed (use at_i in simp_all)
qed

lemma loop_indices_split:
  "i \<in> set (loop_indices lines j) \<Longrightarrow>
     loop_indices lines j = takeWhile (\<lambda>k. k < i) (loop_indices lines j) @ loop_indices lines i"
proof (induction lines j rule: loop_indices.induct)
  case (1 lines j)
  show ?case
  proof (cases "j < length lines")
    case True
    have li: "loop_indices lines j = j # loop_indices lines (next_index lines j)"
      using True by (subst loop_indices.simps) simp
    show ?thesis
    proof (cases "i = j")
      case True
      then show ?thesis by (simp add: li)
    next
      case False
      with 1(2) li have mem: "i \<in> set (loop_indices lines (next_index lines j))" by simp
      from loop_indices_bounds [OF mem] next_index_gt [OF True] have "j < i" by simp
      with 1(1) [OF True mem] show ?thesis by (simp add: li)
    qed
  next
    case False
    with 1(2) show ?thesis by (subst (asm) loop_indices.simps) simp
  qed
qed

lemma refactor_at_loop_index:
  assumes "i \<in> set (loop_indices lines 0)"
  shows "refactor lines =
           emitted_before lines i @ concat (map (emitted lines) (loop_indices lines i))"
proof -
  have "refactor lines = concat (map (emitted lines) (loop_indices lines 0))"
    by (simp add: refactor_def refactor_loop_eq)
  also have "\<dots> = concat (map (emitted lines)
                     (takeWhile (\<lambda>k. k < i) (loop_indices lines 0) @ loop_indices lines i))"
    using loop_indices_split [OF assms] by simp
  finally show ?thesis by (simp add: emitted_before_def)
qed

text \<open>
  C2 (as the code has it). \<open>refactor\<close> has no failure for a construct without terminator. When
  the branch taken at a line \<open>i\<close> reached by the loop is one of the seven scanning branches (macro
  definition, \<open>with_interceptor\<close> method, \<open>interceptors()\<close> accessor, helper block, the two
  multi-line calls, the \<open>handle_api_error\<close> statement) and its exit test holds at no line from \<open>i\<close>
  to the end of the buffer, the scan runs to the end of the buffer and the loop ends there. Every
  line from \<open>i\<close> on is dropped; the \<open>handle_api_error\<close> branch still appends its replacement
  line, the others append nothing. The run raises nothing, and the file is written with what
  was appended up to and in that iteration.
\<close>

theorem unterminated_construct_drops_rest:
  assumes "lines = readlines content" and "i \<in> set (loop_indices lines 0)"
    and "unterminated lines i"
  shows "length lines \<le> next_index lines i \<and>
         emitted lines i =
           (if rule_of lines i = Some HandleApiError then [map_api_error_line (lines ! i)] else []) \<and>
         refactor lines = emitted_before lines i @ emitted lines i \<and>
         refactor_main NoFault (Some content) =
           (None, Some (concat (emitted_before lines i @ emitted lines i)))"
proof -
  from loop_indices_bounds [OF assms(2)] have lt: "i < length lines" by simp
  from unterminated_leaves_buffer [OF lt assms(3)] have out: "length lines \<le> next_index lines i" .
  then have "loop_indices lines (next_index lines i) = []"
    by (subst loop_indices.simps) simp
  then have "loop_indices lines i = [i]"
    using lt by (subst loop_indices.simps) simp
  with refactor_at_loop_index [OF assms(2)]
  have all: "refactor lines = emitted_before lines i @ emitted lines i" by simp
  from assms(3) obtain r where r: "rule_of lines i = Some r"
    and no: "\<not> terminates_at r lines i i"
    using lt by (auto simp: unterminated_def list_all_iff split: option.splits)
  have em: "emitted lines i =
      (if rule_of lines i = Some HandleApiError then [map_api_error_line (lines ! i)] else [])"
    using r no by (cases r) (simp_all add: emitted_by_rule)
  have "refactor_main NoFault (Some content) = (None, Some (concat (refactor lines)))"
    by (simp add: refactor_main_def run_script_def open_read_def open_write_def write_text_def
        print_line_def refactor_file_def writelines_def assms(1))
  with out em all show ?thesis by simp
qed

theorem unterminated_construct_drops_rest_witness:
  "readlines ''a\<newline>  x.handle_api_error(e,\<newline>  b)\<newline>'' =
     [''a\<newline>'', ''  x.handle_api_error(e,\<newline>'', ''  b)\<newline>''] \<and>
   unterminated [''a\<newline>'', ''  x.handle_api_error(e,\<newline>'', ''  b)\<newline>''] 1 \<and>
   refactor [''a\<newline>'', ''  x.handle_api_error(e,\<newline>'', ''  b)\<newline>''] =
     [''a\<newline>'', ''  map_api_error(e)\<newline>''] \<and>
   refactor_main NoFault (Some ''a\<newline>  x.handle_api_error(e,\<newline>  b)\<newline>'') =
     (None, Some ''a\<newline>  map_api_error(e)\<newline>'')"
proof -
  let ?C = "''a\<newline>  x.handle_api_error(e,\<newline>  b)\<newline>''"
  let ?L = "[''a\<newline>'', ''  x.handle_api_error(e,\<newline>'', ''  b)\<newline>'']"
  have rd: "readlines ?C = ?L" by simp
  have li: "loop_indices ?L 0 = [0, 1]" by (simp add: eval_simps)
  have r: "rule_of ?L 1 = Some HandleApiError" by (simp add: eval_simps)
  have up: "[1..<length ?L] = [1, 2]" by code_simp
  have u: "unterminated ?L 1"
    unfolding unterminated_def r up by (simp add: eval_simps)
  have eb: "emitted_before ?L 1 = [''a\<newline>'']"
    by (simp add: emitted_before_def li) (simp add: eval_simps)
  have em: "emitted ?L 1 = [''  map_api_error(e)\<newline>'']" by (simp add: eval_simps)
  have mem: "1 \<in> set (loop_indices ?L 0)" by (simp add: li)
  from unterminated_construct_drops_rest [OF rd [symmetric] mem u] eb em rd u
  show ?thesis by simp
qed

text \<open>A file with an unterminated \<open>call_before_request\<close>: the run succeeds and writes back the
  first line alone.\<close>

theorem unterminated_run_succeeds:
  "refactor_main NoFault (Some ''fn f() {\<newline>        self.call_before_request(x)\<newline>    keep();\<newline>}\<newline>'') = (None, Some ''fn f() {\<newline>'')"
  by (simp add: refactor_main_def run_script_def open_read_def open_write_def write_text_def
        print_line_def refactor_file_def writelines_def eval_simps)

section \<open>Failing runs\<close>

lemma run_script_simps:
  "run_script patch fault None = (Some IOError, None)"
  "run_script patch ReadFails (Some content) = (Some IOError, Some content)"
  "run_script patch OpenWriteFails (Some content) = (Some IOError, Some content)"
  "run_script patch (WriteFails n) (Some content) = (Some IOError, Some (take n (patch content)))"
  "run_script patch PrintFails (Some content) = (Some IOError, Some (patch content))"
  "run_script patch NoFault (Some content) = (None, Some (patch content))"
  by (simp_all add: run_script_def open_read_def open_write_def write_text_def print_line_def)

text \<open>
  C6 (as the code has it). The scripts open the target with mode \<open>'w'\<close> and write in place; there
  is no temporary file and no rename, and no failure for an unterminated construct. When a run
  fails, an I/O operation raised. The file is untouched if the failure came before the file was
  open for writing (no file, a failing read, a failing open). If the write failed, the file
  holds the part of the patched text written so far, and if the final \<open>print\<close> failed, the whole
  patched text. This holds for every transformation \<open>patch\<close>, so for the three scripts alike.
\<close>

theorem failed_run_file:
  assumes "fst (run_script patch fault file) \<noteq> None"
  shows "(file = None \<or> fault \<noteq> NoFault) \<and>
         snd (run_script patch fault file) =
           (case fault of
              WriteFails n \<Rightarrow> map_option (\<lambda>content. take n (patch content)) file
            | PrintFails \<Rightarrow> map_option patch file
            | _ \<Rightarrow> file)"
  using assms by (cases "file"; cases fault) (simp_all add: run_script_simps)

theorem failed_run_file_witness:
  "fst (fix_client_main (WriteFails 3) (Some ''f(&metadata);\<newline>'')) \<noteq> None \<and>
   snd (fix_client_main (WriteFails 3) (Some ''f(&metadata);\<newline>'')) = Some ''f()''"
  using failed_run_file [of fix_client "WriteFails 3" "Some ''f(&metadata);\<newline>''"]
  by (simp add: fix_client_main_def run_script_simps fix_simps)

text \<open>A write that fails at once leaves an empty file where the source was.\<close>

theorem write_failure_truncates_file:
  "fix_client_main (WriteFails 0) (Some ''fn main() {}\<newline>'') = (Some IOError, Some [])"
  by (simp add: fix_client_main_def run_script_def open_read_def open_write_def write_text_def)

section \<open>Properties of \<open>fix_client\<close>\<close>

subsection \<open>The scan\<close>

lemma re_scan_partition: "concat (map piece_in (re_scan m prev s)) = s"
proof (induction m prev s rule: re_scan.induct)
  case (1 m prev)
  show ?case by (simp add: re_scan.simps)
next
  case (2 m prev c cs)
  show ?case
  proof (cases "m prev (c # cs)")
    case None
    with 2(1) show ?thesis by (simp add: re_scan.simps)
  next
    case (Some a)
    obtain n r where a: "a = (n, r)" by (cases a)
    show ?thesis
    proof (cases "0 < n \<and> n \<le> length (c # cs)")
      case True
      have "re_scan m prev (c # cs) =
              Matched (take n (c # cs)) r # re_scan m (Some ((c # cs) ! (n - 1))) (drop n (c # cs))"
        using Some a True by (subst re_scan.simps) simp
      moreover have "concat (map piece_in (re_scan m (Some ((c # cs) ! (n - 1))) (drop n (c # cs)))) =
                       drop n (c # cs)"
        using 2(2) Some a True by simp
      ultimately show ?thesis by (simp del: drop_Suc_Cons take_Suc_Cons)
    next
      case False
      have "re_scan m prev (c # cs) = Kept c # re_scan m (Some c) cs"
        using Some a False by (subst re_scan.simps) simp
      moreover have "concat (map piece_in (re_scan m (Some c) cs)) = cs"
        using 2(3) Some a False by simp
      ultimately show ?thesis by simp
    qed
  qed
qed

lemma kept_pieces: "list_all is_kept ps \<Longrightarrow> concat (map piece_out ps) = concat (map piece_in ps)"
proof (induction ps)
  case Nil
  show ?case by simp
next
  case (Cons p ps)
  then show ?case by (cases p) simp_all
qed

lemma no_match_re_sub: "no_match m s \<Longrightarrow> re_sub m s = s"
  by (simp add: no_match_def re_sub_def kept_pieces re_scan_partition)

lemma re_scan_shrinks:
  assumes "\<forall>prev s n r. m prev s = Some (n, r) \<longrightarrow> length r < n"
  shows "length (concat (map piece_out (re_scan m prev s))) \<le> length s \<and>
         (\<not> list_all is_kept (re_scan m prev s) \<longrightarrow>
            length (concat (map piece_out (re_scan m prev s))) < length s)"
  using assms
proof (induction m prev s rule: re_scan.induct)
  case (1 m prev)
  show ?case by (simp add: re_scan.simps)
next
  case (2 m prev c cs)
  note shrink = 2(4)
  show ?case
  proof (cases "m prev (c # cs)")
    case None
    have "re_scan m prev (c # cs) = Kept c # re_scan m (Some c) cs"
      using None by (subst re_scan.simps) simp
    with 2(1) [OF None shrink] show ?thesis by auto
  next
    case (Some a)
    obtain n r where a: "a = (n, r)" by (cases a)
    show ?thesis
    proof (cases "0 < n \<and> n \<le> length (c # cs)")
      case True
      let ?rest = "re_scan m (Some ((c # cs) ! (n - 1))) (drop n (c # cs))"
      have eq: "re_scan m prev (c # cs) = Matched (take n (c # cs)) r # ?rest"
        using Some a True by (subst re_scan.simps) simp
      have "length (concat (map piece_out ?rest)) \<le> length (drop n (c # cs))"
        using 2(2) [OF Some a [symmetric] True shrink] by simp
      moreover have "length r < n" using shrink Some a by simp
      ultimately have "length (concat (map piece_out (re_scan m prev (c # cs)))) < length (c # cs)"
        using True unfolding eq by (simp del: drop_Suc_Cons take_Suc_Cons)
      then show ?thesis by simp
    next
      case False
      have "re_scan m prev (c # cs) = Kept c # re_scan m (Some c) cs"
        using Some a False by (subst re_scan.simps) simp
      with 2(3) [OF Some a [symmetric] False shrink] show ?thesis by auto
    qed
  qed
qed

lemma re_sub_length:
  assumes "\<And>prev s n r. m prev s = Some (n, r) \<Longrightarrow> length r < n"
  shows "length (re_sub m s) \<le> length s" and "length (re_sub m s) = length s \<Longrightarrow> no_match m s"
proof -
  from assms have "\<forall>prev s n r. m prev s = Some (n, r) \<longrightarrow> length r < n" by blast
  from re_scan_shrinks [OF this, of None s]
  show "length (re_sub m s) \<le> length s" and "length (re_sub m s) = length s \<Longrightarrow> no_match m s"
    by (auto simp: re_sub_def no_match_def)
qed

lemma match_call_shrinks: "match_call name terminator prev s = Some (n, r) \<Longrightarrow> length r < n"
  by (auto simp: match_call_def Let_def split: if_splits)

lemma match_handle_api_error_shrinks: "match_handle_api_error prev s = Some (n, r) \<Longrightarrow> length r < n"
  by (auto simp: match_handle_api_error_def Let_def split: if_splits)

lemma match_metadata_shrinks: "match_metadata prev s = Some (n, r) \<Longrightarrow> length r < n"
  by (auto simp: match_metadata_def Let_def split: if_splits)

lemma fix_client_fixpoint: "(fix_client s = s) = matches_nothing s"
proof
  assume "matches_nothing s"
  then show "fix_client s = s"
    by (simp add: matches_nothing_def fix_client_def no_match_re_sub)
next
  assume fp: "fix_client s = s"
  let ?c1 = "re_sub match_before_request s"
  let ?c2 = "re_sub match_handle_api_error ?c1"
  let ?c3 = "re_sub match_after_response ?c2"
  let ?c4 = "re_sub match_metadata ?c3"
  have sh1: "\<And>prev s n r. match_before_request prev s = Some (n, r) \<Longrightarrow> length r < n"
    unfolding match_before_request_def by (rule match_call_shrinks)
  have sh3: "\<And>prev s n r. match_after_response prev s = Some (n, r) \<Longrightarrow> length r < n"
    unfolding match_after_response_def by (rule match_call_shrinks)
  have l1: "length ?c1 \<le> length s" by (rule re_sub_length(1) [OF sh1])
  have l2: "length ?c2 \<le> length ?c1" by (rule re_sub_length(1) [OF match_handle_api_error_shrinks])
  have l3: "length ?c3 \<le> length ?c2" by (rule re_sub_length(1) [OF sh3])
  have l4: "length ?c4 \<le> length ?c3" by (rule re_sub_length(1) [OF match_metadata_shrinks])
  from fp have "length ?c4 = length s" by (simp add: fix_client_def)
  with l1 l2 l3 l4 have eqs: "length ?c1 = length s" "length ?c2 = length ?c1"
    "length ?c3 = length ?c2" "length ?c4 = length ?c3" by simp_all
  have n1: "no_match match_before_request s" by (rule re_sub_length(2) [OF sh1 eqs(1)])
  then have c1: "?c1 = s" by (rule no_match_re_sub)
  have n2: "no_match match_handle_api_error s"
    using re_sub_length(2) [OF match_handle_api_error_shrinks eqs(2)] c1 by simp
  then have c2: "?c2 = s" using c1 by (simp add: no_match_re_sub)
  have n3: "no_match match_after_response s"
    using re_sub_length(2) [OF sh3 eqs(3)] c2 by simp
  then have c3: "?c3 = s" using c2 by (simp add: no_match_re_sub)
  have n4: "no_match match_metadata s"
    using re_sub_length(2) [OF match_metadata_shrinks eqs(4)] c3 by simp
  from n1 n2 n3 n4 show "matches_nothing s" by (simp add: matches_nothing_def)
qed

subsection \<open>Idempotence\<close>

text \<open>
  C5 (as the code has it). \<open>fix_client\<close> returns a text unchanged exactly when none of its four
  patterns matches in it. So applying it twice equals applying it once exactly when the result
  of the first application contains no match; that is not so for every file.
\<close>

theorem fix_client_idempotent_iff:
  "(fix_client s = s) = matches_nothing s \<and>
   (fix_client (fix_client s) = fix_client s) = matches_nothing (fix_client s)"
  by (simp add: fix_client_fixpoint)

theorem fix_client_idempotent_iff_witness:
  "matches_nothing ''fn main() {}\<newline>'' \<and> fix_client ''fn main() {}\<newline>'' = ''fn main() {}\<newline>''"
proof -
  have "fix_client ''fn main() {}\<newline>'' = ''fn main() {}\<newline>''" by (simp add: fix_simps)
  with fix_client_idempotent_iff [of "''fn main() {}\<newline>''"] show ?thesis by simp
qed

text \<open>A comment in which removing \<open>&metadata\<close> joins \<open>meta\<close> and \<open>data\<close>: the patched file still
  matches the last pattern, and the second run removes the new word and the newline after it.\<close>

theorem fix_client_not_idempotent:
  "fix_client ''// meta&metadatadata\<newline>'' = ''// metadata\<newline>'' \<and>
   fix_client (fix_client ''// meta&metadatadata\<newline>'') = ''// ''"
  by (simp add: fix_simps)

subsection \<open>The \<open>metadata\<close> substitution\<close>



lemma startswith_append: "startswith (p @ s) p"
  by (induction p) simp_all
















section \<open>Conservation and the single pass\<close>

lemma loop_indices_Cons:
  "i < length lines \<Longrightarrow> loop_indices lines i = i # loop_indices lines (next_index lines i)"
  by (subst loop_indices.simps) simp

lemma loop_indices_Nil: "\<not> i < length lines \<Longrightarrow> loop_indices lines i = []"
  by (subst loop_indices.simps) simp

lemma next_index_None: "rule_of lines i = None \<Longrightarrow> next_index lines i = i + 1"
  by (simp add: next_index_by_rule)

lemma cover_from:
  assumes "i \<le> k" "k < length lines"
  shows "(k \<in> set (filter (\<lambda>k. rule_of lines k = None) (loop_indices lines i)) \<and>
          filter (\<lambda>(r, s, e). s \<le> k \<and> k \<le> e) (concat (map (span_at lines) (loop_indices lines i))) = []) \<or>
         (k \<notin> set (filter (\<lambda>k. rule_of lines k = None) (loop_indices lines i)) \<and>
          length (filter (\<lambda>(r, s, e). s \<le> k \<and> k \<le> e)
                    (concat (map (span_at lines) (loop_indices lines i)))) = 1)"
  using assms
proof (induction lines i rule: loop_indices.induct)
  case (1 lines i)
  let ?cov = "\<lambda>(r :: rule_id, s, e). s \<le> k \<and> k \<le> e"
  let ?n = "next_index lines i"
  from 1(2,3) have lt: "i < length lines" by simp
  note li = loop_indices_Cons [OF lt]
  from next_index_gt [OF lt] have adv: "i < ?n" .
  show ?case
  proof (cases "k < ?n")
    case True
    have later: "filter ?cov (concat (map (span_at lines) (loop_indices lines ?n))) = []"
    proof -
      have "\<not> ?cov x" if "x \<in> set (concat (map (span_at lines) (loop_indices lines ?n)))" for x
      proof -
        obtain r s e where x: "x = (r, s, e)" by (cases x)
        from spans_elem [of r s e lines ?n] that x have "?n \<le> s" by simp
        with True x show ?thesis by simp
      qed
      then show ?thesis by (simp add: filter_empty_conv)
    qed
    have notin: "k \<notin> set (loop_indices lines ?n)"
      using loop_indices_bounds [of k lines ?n] True by auto
    show ?thesis
    proof (cases "rule_of lines i")
      case None
      from next_index_None [OF None] True 1(2) have "k = i" by simp
      moreover have "span_at lines i = []" using None by (simp add: span_at_def)
      ultimately show ?thesis using None later by (simp add: li)
    next
      case (Some r)
      have "filter ?cov (span_at lines i) = [(r, i, min ?n (length lines) - 1)]"
        using Some 1(2,3) True adv by (simp add: span_at_def)
      with Some later notin show ?thesis by (auto simp: li)
    qed
  next
    case False
    then have ge: "?n \<le> k" by simp
    have first: "filter ?cov (span_at lines i) = []"
      using ge adv lt by (auto simp: span_at_def split: option.splits)
    from ge adv have "k \<noteq> i" by simp
    with 1(1) [OF lt ge 1(3)] first show ?thesis by (simp add: li)
  qed
qed

lemma length_from:
  "length (concat (map (emitted lines) (loop_indices lines i))) +
     sum_list (map (\<lambda>(r, s, e). e + 1 - s) (concat (map (span_at lines) (loop_indices lines i)))) =
   (length lines - i) +
     sum_list (map (\<lambda>(r, s, e). length (emitted lines s))
        (concat (map (span_at lines) (loop_indices lines i))))"
proof (induction lines i rule: loop_indices.induct)
  case (1 lines i)
  show ?case
  proof (cases "i < length lines")
    case True
    let ?n = "next_index lines i"
    note li = loop_indices_Cons [OF True]
    from next_index_gt [OF True] have adv: "i < ?n" .
    note IH = 1 [OF True]
    show ?thesis
    proof (cases "rule_of lines i")
      case None
      from next_index_None [OF None] have n: "?n = i + 1" .
      have "emitted lines i = [lines ! i]" using None by (simp add: emitted_by_rule)
      with IH None True show ?thesis by (simp add: li span_at_def n)
    next
      case (Some r)
      have "(min ?n (length lines) - 1) + 1 - i + (length lines - ?n) = length lines - i"
        using adv True by (simp add: min_def)
      with IH Some show ?thesis by (simp add: li span_at_def)
    qed
  next
    case False
    then show ?thesis by (simp add: loop_indices_Nil)
  qed
qed

lemma pieces_length:
  "length (concat (map piece_out ps)) + sum_list (map matched_len ps) =
   length (concat (map piece_in ps)) + sum_list (map replaced_len ps)"
proof (induction ps)
  case Nil
  show ?case by simp
next
  case (Cons p ps)
  then show ?case by (cases p) simp_all
qed

text \<open>
  C4 (as the code has it). In \<open>refactor\<close> every line of the input is accounted for: it is either
  the line of an iteration that took no rule, and then copied verbatim to the output, or it lies
  in exactly one applied span; the number of output lines is the number of input lines minus
  the lines in applied spans plus the lines the rules appended. In a substitution of
  \<open>fix_client\<close> the unit is the character, not the line: the pieces of the scan partition the
  text, a kept character is copied, a match is replaced, and the length of the result is the
  length of the text minus the matched lengths plus the replacement lengths.
\<close>

theorem conservation:
  "(\<forall>k < length lines.
      (k \<in> set (kept lines) \<and> covering lines k = []) \<or>
      (k \<notin> set (kept lines) \<and> length (covering lines k) = 1)) \<and>
   (\<forall>k \<in> set (kept lines). emitted lines k = [lines ! k]) \<and>
   refactor lines = concat (map (emitted lines) (loop_indices lines 0)) \<and>
   length (refactor lines) + deleted lines = length lines + inserted lines \<and>
   concat (map piece_in (re_scan m None s)) = s \<and>
   re_sub m s = concat (map piece_out (re_scan m None s)) \<and>
   length (re_sub m s) + sum_list (map matched_len (re_scan m None s)) =
     length s + sum_list (map replaced_len (re_scan m None s))"
proof -
  have app: "refactor_applied lines = concat (map (span_at lines) (loop_indices lines 0))"
    and out: "refactor lines = concat (map (emitted lines) (loop_indices lines 0))"
    by (simp_all add: refactor_applied_def refactor_def refactor_loop_eq)
  have c1: "\<forall>k < length lines.
      (k \<in> set (kept lines) \<and> covering lines k = []) \<or>
      (k \<notin> set (kept lines) \<and> length (covering lines k) = 1)"
    unfolding kept_def covering_def app using cover_from [of 0 _ lines] by blast
  have c2: "\<forall>k \<in> set (kept lines). emitted lines k = [lines ! k]"
    by (simp add: kept_def emitted_by_rule)
  have c3: "length (refactor lines) + deleted lines = length lines + inserted lines"
    unfolding deleted_def inserted_def app out using length_from [of lines 0] by simp
  have c4: "length (re_sub m s) + sum_list (map matched_len (re_scan m None s)) =
     length s + sum_list (map replaced_len (re_scan m None s))"
    using pieces_length [of "re_scan m None s"] by (simp add: re_sub_def re_scan_partition)
  from c1 c2 out c3 c4 show ?thesis by (simp add: re_scan_partition re_sub_def)
qed

theorem conservation_witness:
  "kept [''use crate::interceptor::X;\<newline>'', ''a\<newline>'',
      ''        self.call_before_request(\<newline>'', ''x).await?;\<newline>'', ''b\<newline>''] = [1, 4] \<and>
   covering [''use crate::interceptor::X;\<newline>'', ''a\<newline>'',
      ''        self.call_before_request(\<newline>'', ''x).await?;\<newline>'', ''b\<newline>''] 3 = [(BeforeRequest, 2, 3)] \<and>
   deleted [''use crate::interceptor::X;\<newline>'', ''a\<newline>'',
      ''        self.call_before_request(\<newline>'', ''x).await?;\<newline>'', ''b\<newline>''] = 3 \<and>
   inserted [''use crate::interceptor::X;\<newline>'', ''a\<newline>'',
      ''        self.call_before_request(\<newline>'', ''x).await?;\<newline>'', ''b\<newline>''] = 0 \<and>
   length (refactor [''use crate::interceptor::X;\<newline>'', ''a\<newline>'',
      ''        self.call_before_request(\<newline>'', ''x).await?;\<newline>'', ''b\<newline>'']) = 2"
proof -
  let ?L = "[''use crate::interceptor::X;\<newline>'', ''a\<newline>'',
      ''        self.call_before_request(\<newline>'', ''x).await?;\<newline>'', ''b\<newline>'']"
  have li: "loop_indices ?L 0 = [0, 1, 2, 4]" by (simp add: eval_simps)
  have ap: "refactor_applied ?L = [(InterceptorImport, 0, 0), (BeforeRequest, 2, 3)]"
    by (simp add: eval_simps)
  have k: "kept ?L = [1, 4]" unfolding kept_def li by (simp add: eval_simps)
  have c: "covering ?L 3 = [(BeforeRequest, 2, 3)]" unfolding covering_def ap by simp
  have d: "deleted ?L = 3" unfolding deleted_def ap by simp
  have i: "inserted ?L = 0" unfolding inserted_def ap by (simp add: eval_simps)
  note cons = conservation [of ?L match_metadata "[]"]
  note len = cons [THEN conjunct2, THEN conjunct2, THEN conjunct2, THEN conjunct1]
  from len have "length (refactor ?L) = 2" unfolding d i by simp
  with k c d i show ?thesis by blast
qed

text \<open>A line of which \<open>fix_client\<close> removes two parts: it lies in no match and holds two, and it
  is not copied verbatim.\<close>

theorem line_partly_rewritten:
  "re_scan match_metadata None ''f(&metadata, metadata);\<newline>'' =
     [Kept CHR ''f'', Kept CHR ''('', Matched ''&metadata'' [], Kept CHR '','', Kept CHR '' '',
      Matched ''metadata'' [], Kept CHR '')'', Kept CHR '';'', Kept CHR ''\<newline>''] \<and>
   fix_client ''f(&metadata, metadata);\<newline>'' = ''f(, );\<newline>''"
  by (simp add: fix_simps)

text \<open>
  C3 (as the code has it). \<open>refactor\<close> makes a single forward pass: the indices at which the loop
  body runs are strictly increasing, each lies in the buffer and is followed by a strictly
  larger one, so a line is the current line of at most one iteration; the output is only
  appended to and never read, the rest of a run being the same whatever has been emitted. The
  rule table does read the line before the current one, and the scans read ahead.
  \<open>fix_client\<close> is not a single pass: it is four substitutions, each one scan from left to right
  that partitions the text it receives, each applied to the result of the one before.
\<close>

theorem single_forward_pass:
  "sorted_wrt (<) (loop_indices lines i) \<and>
   (\<forall>k \<in> set (loop_indices lines i). i \<le> k \<and> k < length lines \<and> k < next_index lines k) \<and>
   refactor_loop lines i out app =
     (out @ fst (refactor_loop lines i [] []), app @ snd (refactor_loop lines i [] [])) \<and>
   concat (map piece_in (re_scan m prev s)) = s \<and>
   fix_client content =
     re_sub match_metadata (re_sub match_after_response
       (re_sub match_handle_api_error (re_sub match_before_request content)))"
proof -
  have "\<forall>k \<in> set (loop_indices lines i). i \<le> k \<and> k < length lines \<and> k < next_index lines k"
    using loop_indices_bounds [of _ lines i] next_index_gt by blast
  then show ?thesis
    by (simp add: loop_indices_increasing refactor_loop_eq re_scan_partition fix_client_def)
qed

theorem single_forward_pass_witness:
  "loop_indices [''a\<newline>'', ''        self.call_before_request(\<newline>'', ''x).await?;\<newline>'', ''b\<newline>''] 0 = [0, 1, 3] \<and>
   sorted_wrt (<) (loop_indices [''a\<newline>'', ''        self.call_before_request(\<newline>'', ''x).await?;\<newline>'', ''b\<newline>''] 0) \<and>
   next_index [''a\<newline>'', ''        self.call_before_request(\<newline>'', ''x).await?;\<newline>'', ''b\<newline>''] 1 = 3"
  using single_forward_pass [of "[''a\<newline>'', ''        self.call_before_request(\<newline>'', ''x).await?;\<newline>'', ''b\<newline>'']" 0 "[]" "[]" match_metadata None "[]" "[]"]
  by (simp add: eval_simps)

text \<open>The last substitution of \<open>fix_client\<close> matches nothing in the text below, but it matches the
  result of the first substitution, which joins \<open>meta\<close> and \<open>data\<close>. In \<open>refactor\<close> the line
  \<open>// Allow this lint\<close> is kept, and read again at the next iteration, where it decides that
  the line after it is dropped.\<close>

theorem later_pass_rematches:
  "re_sub match_metadata ''meta        self.call_before_request(x).await?;\<newline>data'' =
     ''meta        self.call_before_request(x).await?;\<newline>data'' \<and>
   re_sub match_before_request ''meta        self.call_before_request(x).await?;\<newline>data'' = ''metadata'' \<and>
   fix_client ''meta        self.call_before_request(x).await?;\<newline>data'' = [] \<and>
   refactor [''// Allow this lint\<newline>'', ''a\<newline>''] = [''// Allow this lint\<newline>''] \<and>
   refactor [''// Allow this\<newline>'', ''a\<newline>''] = [''// Allow this\<newline>'', ''a\<newline>'']"
  by (simp add: fix_simps eval_simps)

end
